theory Spec2Isabelle
  imports Complex_Main "HOL-Library.Product_Lexorder" "HOL-Library.Multiset"
    "HOL-Library.Log_Nat"
begin

section \<open>The voting and qualification engine of the CarMod Showdown backend\<close>

text \<open>
  The server keeps its state in two tables of a relational store, \<open>submissions\<close>
  and \<open>user_votes\<close>. Every request handler is a sequence of SQL statements on
  them. The handlers are embedded as functions from the store to a response and
  the store after the request.
\<close>

subsection \<open>Competition clock\<close>

text \<open>
  \<^verbatim>\<open>getCurrentWeek\<close> reads the wall clock. Instants are milliseconds since the
  epoch, as the values of JavaScript \<^verbatim>\<open>Date\<close> objects are; the clock reading is the
  argument \<open>now\<close>. \<^verbatim>\<open>Math.floor(a / b)\<close> is \<open>div\<close> on \<open>int\<close>, which rounds
  towards minus infinity as \<^verbatim>\<open>Math.floor\<close> does. (A \<^verbatim>\<open>Date\<close> is below \<open>8.64e15\<close> in
  absolute value, so the two operands and the difference are integers that a
  double holds exactly, and the rounded quotient by \<open>86400000\<close> has the floor of
  the exact one.)
\<close>

definition startDate :: int where
  \<comment> \<open>\<^verbatim>\<open>new Date('2025-10-07')\<close>: midnight UTC of that day\<close>
  "startDate = 1759795200000"

definition msPerDay :: int where
  "msPerDay = 1000 * 60 * 60 * 24"

definition getCurrentWeek :: "int \<Rightarrow> int" where
  "getCurrentWeek now =
     (let diffTime = now - startDate;
          diffDays = diffTime div msPerDay;
          weekNumber = diffDays div 7 + 1
      in if weekNumber < 1 then 0
         else if weekNumber > 10 then 11
         else weekNumber)"

subsection \<open>The store\<close>

text \<open>
  A row of \<open>submissions\<close> carries the columns that the voting handlers read or
  write; the descriptive columns (names, e-mail, file path) take no part in them.
  \<open>status\<close> is a text column: the handlers write and compare the literals
  \<^verbatim>\<open>'PENDING'\<close> and \<^verbatim>\<open>'QUALIFIED'\<close>, and the administrative endpoint that selects
  a winner writes \<^verbatim>\<open>'winner'\<close>. Identifiers are the integers the store
  compares them as. A table is the list of its rows. The order in which the store
  hands out the rows of a \<^verbatim>\<open>SELECT\<close> without \<^verbatim>\<open>ORDER BY\<close> is not the order of
  the list: SQL leaves it open, and it changes when rows are updated. Where a
  handler depends on it, the store's choice is a parameter of the handler.
\<close>

record submission =
  sub_id :: nat
  user_id :: nat
  week_number :: int
  status :: string
  times_shown :: int
  thumbs_up :: int
  thumbs_down :: int
  total_votes :: int
  votes_completed :: int
  qualified_at :: "int option"
  is_winner :: bool

text \<open>
  A value of the JSON request body, as \<^verbatim>\<open>express.json()\<close> delivers it;
  \<open>JUndefined\<close> is a field that the body does not have.
\<close>

datatype jsval =
    JUndefined
  | JNull
  | JBool bool
  | JNum rat
  | JStr string
  | JArr "jsval list"
  | JObj "(string \<times> jsval) list"

record user_vote =
  voter_id :: nat
  submission_id :: nat
  vote_value :: jsval

record db =
  submissions :: "submission list"
  user_votes :: "user_vote list"

definition update_where :: "('r \<Rightarrow> bool) \<Rightarrow> ('r \<Rightarrow> 'r) \<Rightarrow> 'r list \<Rightarrow> 'r list" where
  \<comment> \<open>\<^verbatim>\<open>UPDATE t SET ... WHERE p\<close>\<close>
  "update_where p f rows = map (\<lambda>r. if p r then f r else r) rows"

definition insert_vote :: "user_vote \<Rightarrow> user_vote list \<Rightarrow> user_vote list" where
  \<comment> \<open>\<^verbatim>\<open>INSERT INTO user_votes ... ON CONFLICT (voter_id, submission_id) DO NOTHING\<close>\<close>
  "insert_vote v rows =
     (if \<exists>r \<in> set rows. voter_id r = voter_id v \<and> submission_id r = submission_id v
      then rows else rows @ [v])"

definition votes_of :: "db \<Rightarrow> nat \<Rightarrow> user_vote list" where
  \<comment> \<open>\<^verbatim>\<open>FROM user_votes WHERE voter_id = $1\<close>\<close>
  "votes_of d voterId = filter (\<lambda>v. voter_id v = voterId) (user_votes d)"

definition own_rows :: "db \<Rightarrow> nat \<Rightarrow> submission list" where
  \<comment> \<open>\<^verbatim>\<open>SELECT * FROM submissions WHERE user_id = $1\<close>\<close>
  "own_rows d userId = filter (\<lambda>s. user_id s = userId) (submissions d)"

subsection \<open>POST /api/vote\<close>

text \<open>
  The handler answers \<^verbatim>\<open>{success: true, votesCompleted, votesRequired: 25, qualified}\<close>,
  or, from its \<^verbatim>\<open>catch\<close> block, status 500 with \<^verbatim>\<open>'Failed to submit vote'\<close>.
  The field \<^verbatim>\<open>qualified\<close> is the selector \<open>qualifiedFlag\<close> (the name itself is
  reserved in Isabelle).

  The declaration of the table \<open>user_votes\<close> is not among the sources. Whether the
  store accepts the row of the \<^verbatim>\<open>INSERT\<close> (the types of its columns, their
  \<^verbatim>\<open>NOT NULL\<close> and foreign-key constraints) is therefore the parameter \<open>admits\<close>;
  when it does not, the first statement throws and nothing has been written. The
  timestamp that \<^verbatim>\<open>NOW()\<close> yields is the parameter \<open>now\<close>.

  The handler reads \<^verbatim>\<open>rows[0]\<close> of \<^verbatim>\<open>SELECT * FROM submissions WHERE user_id = $1\<close>,
  a query without \<^verbatim>\<open>ORDER BY\<close> that runs after the update of the tallies. Which
  of the voter's rows the store returns first is the parameter \<open>first\<close>: of the
  \<open>n\<close> rows of the voter, in the order of the list, it is the one at position
  \<open>first mod n\<close>. Every value of \<open>first\<close> is a possible choice of the store.
\<close>

datatype vote_response =
    VoteOk (votesCompleted: int) (qualifiedFlag: bool)
  | VoteFailed

definition castVote ::
  "(db \<Rightarrow> user_vote \<Rightarrow> bool) \<Rightarrow> nat \<Rightarrow> int \<Rightarrow> db \<Rightarrow> nat \<Rightarrow> nat \<Rightarrow> jsval
     \<Rightarrow> vote_response \<times> db" where
  "castVote admits first now d voterId submissionId voteValue =
     (let row = \<lparr>voter_id = voterId, submission_id = submissionId, vote_value = voteValue\<rparr> in
      if \<not> admits d row then (VoteFailed, d)
      else
        let d1 = d\<lparr>user_votes := insert_vote row (user_votes d)\<rparr>;
            d2 = (if voteValue = JNum 1
                  then d1\<lparr>submissions :=
                         update_where (\<lambda>s. sub_id s = submissionId)
                           (\<lambda>s. s\<lparr>thumbs_up := thumbs_up s + 1, total_votes := total_votes s + 1\<rparr>)
                           (submissions d1)\<rparr>
                  else d1\<lparr>submissions :=
                         update_where (\<lambda>s. sub_id s = submissionId)
                           (\<lambda>s. s\<lparr>thumbs_down := thumbs_down s + 1, total_votes := total_votes s + 1\<rparr>)
                           (submissions d1)\<rparr>)
        in case own_rows d2 voterId of
             [] \<Rightarrow> (VoteOk 0 False, d2)
           | r # rs \<Rightarrow>
               let voterSubmission = (r # rs) ! (first mod length (r # rs));
                   voteCount = int (length (votes_of d2 voterId));
                   d3 = d2\<lparr>submissions :=
                          update_where (\<lambda>s. user_id s = voterId)
                            (\<lambda>s. s\<lparr>votes_completed := voteCount\<rparr>) (submissions d2)\<rparr>
               in if voteCount \<ge> 25 \<and> status voterSubmission = ''PENDING''
                  then (VoteOk voteCount True,
                        d3\<lparr>submissions :=
                          update_where (\<lambda>s. user_id s = voterId)
                            (\<lambda>s. s\<lparr>status := ''QUALIFIED'', qualified_at := Some now\<rparr>)
                            (submissions d3)\<rparr>)
                  else (VoteOk voteCount False, d3))"

text \<open>
  A sequence of requests to the endpoint, each with its own clock reading and its
  own choice of the store, served one after the other.
\<close>

record vote_request =
  req_first :: nat
  req_time :: int
  req_voter :: nat
  req_submission :: nat
  req_value :: jsval

definition serve :: "(db \<Rightarrow> user_vote \<Rightarrow> bool) \<Rightarrow> db \<Rightarrow> vote_request \<Rightarrow> vote_response \<times> db" where
  "serve admits d r =
     castVote admits (req_first r) (req_time r) d (req_voter r) (req_submission r) (req_value r)"

fun castVotes :: "(db \<Rightarrow> user_vote \<Rightarrow> bool) \<Rightarrow> db \<Rightarrow> vote_request list \<Rightarrow> db" where
  "castVotes admits d [] = d"
| "castVotes admits d (r # rs) = castVotes admits (snd (serve admits d r)) rs"

fun replies ::
  "(db \<Rightarrow> user_vote \<Rightarrow> bool) \<Rightarrow> db \<Rightarrow> vote_request list \<Rightarrow> (vote_request \<times> vote_response) list" where
  "replies admits d [] = []"
| "replies admits d (r # rs) = (r, fst (serve admits d r)) # replies admits (snd (serve admits d r)) rs"

subsection \<open>GET /api/voting/batch/:userId\<close>

text \<open>
  Both queries order by \<^verbatim>\<open>times_shown ASC, RANDOM()\<close>. The draws of \<^verbatim>\<open>RANDOM()\<close>,
  one for each row, are the parameters \<open>rnd\<close> (first query) and \<open>rnd'\<close> (second
  query); only their order matters.
\<close>

datatype batch_response =
    BatchOk (entries: "submission list")
  | BatchFailed

definition not_voted :: "db \<Rightarrow> nat \<Rightarrow> submission \<Rightarrow> bool" where
  \<comment> \<open>\<^verbatim>\<open>id NOT IN (SELECT submission_id FROM user_votes WHERE voter_id = $1)\<close>\<close>
  "not_voted d userId s \<longleftrightarrow> sub_id s \<notin> set (map submission_id (votes_of d userId))"

definition candidate :: "db \<Rightarrow> nat \<Rightarrow> submission \<Rightarrow> bool" where
  "candidate d userId s \<longleftrightarrow> user_id s \<noteq> userId \<and> not_voted d userId s"

definition least_shown :: "(submission \<Rightarrow> nat) \<Rightarrow> submission list \<Rightarrow> submission list" where
  \<comment> \<open>\<^verbatim>\<open>ORDER BY times_shown ASC, RANDOM() LIMIT 25\<close>\<close>
  "least_shown rnd rows = take 25 (sort_key (\<lambda>s. (times_shown s, rnd s)) rows)"

fun mark_shown :: "submission list \<Rightarrow> submission list \<Rightarrow> submission list" where
  \<comment> \<open>the loop \<^verbatim>\<open>for (const entry of entries)\<close> with its \<^verbatim>\<open>UPDATE ... WHERE id = $1\<close>\<close>
  "mark_shown [] rows = rows"
| "mark_shown (entry # rest) rows =
     mark_shown rest
       (update_where (\<lambda>s. sub_id s = sub_id entry)
          (\<lambda>s. s\<lparr>times_shown := times_shown s + 1\<rparr>) rows)"

definition getVotingBatch ::
  "(submission \<Rightarrow> nat) \<Rightarrow> (submission \<Rightarrow> nat) \<Rightarrow> db \<Rightarrow> nat \<Rightarrow> batch_response \<times> db" where
  "getVotingBatch rnd rnd' d userId =
     (let entries = least_shown rnd
            (filter (\<lambda>s. candidate d userId s \<and> status s = ''QUALIFIED'') (submissions d))
      in if length entries = 0
         then
           let pendingEntries = least_shown rnd' (filter (candidate d userId) (submissions d))
           in (BatchOk pendingEntries,
               d\<lparr>submissions := mark_shown pendingEntries (submissions d)\<rparr>)
         else (BatchOk entries, d\<lparr>submissions := mark_shown entries (submissions d)\<rparr>))"

subsection \<open>GET /api/winners/:weekNumber\<close>

text \<open>
  The threshold is computed by JavaScript, the approval rating by the store, both
  in IEEE double precision (\<^verbatim>\<open>Number\<close>, \<^verbatim>\<open>float8\<close>). A double is a rational
  number, and each operation returns the double nearest to the exact result, a tie
  going to the one with the even significand. \<open>float8\<close> is this rounding, for
  the normal range of doubles (no overflow, no subnormal numbers, which counts of
  votes and percentages do not reach): \<open>ilog2 x\<close> is the exponent \<open>e\<close> with
  \<open>2^e \<le> x < 2^(e + 1)\<close>, and the result is a multiple of \<open>2^(e - 52)\<close>.
\<close>

definition pow2 :: "int \<Rightarrow> rat" where
  "pow2 e = (if 0 \<le> e then 2 ^ nat e else 1 / 2 ^ nat (- e))"




datatype winners_response =
    WinnersOk (winners: "(submission \<times> rat) list") (minimumVotes: int)
  | WinnersFailed






subsection \<open>The effect of a vote, row by row\<close>

text \<open>
  Notions in which the theorems about \<open>castVote\<close> are stated and proved: the change
  that the tally update makes to a row, the row that the qualification guard
  reads, and the change that one request makes to a row of \<open>submissions\<close>.
  Lemma \<open>castVote_rows\<close> shows that the handler does exactly this.
\<close>

definition tally :: "jsval \<Rightarrow> submission \<Rightarrow> submission" where
  "tally voteValue s =
     (if voteValue = JNum 1
      then s\<lparr>thumbs_up := thumbs_up s + 1, total_votes := total_votes s + 1\<rparr>
      else s\<lparr>thumbs_down := thumbs_down s + 1, total_votes := total_votes s + 1\<rparr>)"

definition guard_status :: "nat \<Rightarrow> db \<Rightarrow> nat \<Rightarrow> string option" where
  \<comment> \<open>\<^verbatim>\<open>voterSubmissionResult.rows[0].status\<close>, when there is such a row\<close>
  "guard_status first d voterId =
     (case own_rows d voterId of
        [] \<Rightarrow> None
      | r # rs \<Rightarrow> Some (status ((r # rs) ! (first mod length (r # rs)))))"

definition cast_row :: "int \<Rightarrow> nat \<Rightarrow> nat \<Rightarrow> jsval \<Rightarrow> int \<Rightarrow> bool \<Rightarrow> submission \<Rightarrow> submission" where
  "cast_row now voterId submissionId voteValue n q s =
     (let s1 = (if sub_id s = submissionId then tally voteValue s else s);
          s2 = (if user_id s1 = voterId then s1\<lparr>votes_completed := n\<rparr> else s1)
      in if user_id s2 = voterId \<and> q
         then s2\<lparr>status := ''QUALIFIED'', qualified_at := Some now\<rparr> else s2)"

definition votes_cast :: "db \<Rightarrow> nat \<Rightarrow> nat" where
  \<comment> \<open>\<^verbatim>\<open>SELECT COUNT(*) FROM user_votes WHERE voter_id = $1\<close>\<close>
  "votes_cast d voterId = length (votes_of d voterId)"

definition ratchet :: "db \<Rightarrow> nat \<Rightarrow> bool" where
  \<comment> \<open>the voter owns a submission, and the status of each of their submissions is
     \<^verbatim>\<open>'PENDING'\<close> below 25 votes cast and \<^verbatim>\<open>'QUALIFIED'\<close> from 25 on\<close>
  "ratchet d v \<longleftrightarrow>
     own_rows d v \<noteq> [] \<and>
     (\<forall>s\<in>set (own_rows d v).
        status s = (if votes_cast d v < 25 then ''PENDING'' else ''QUALIFIED''))"

definition is_qualifying :: "vote_response \<Rightarrow> bool" where
  \<comment> \<open>the response carries \<^verbatim>\<open>qualified: true\<close>\<close>
  "is_qualifying r = (case r of VoteOk n q \<Rightarrow> q | VoteFailed \<Rightarrow> False)"

subsection \<open>Stores used as examples\<close>

definition new_submission :: "nat \<Rightarrow> nat \<Rightarrow> int \<Rightarrow> submission" where
  \<comment> \<open>Modelled from the spec: the column defaults of the table \<open>submissions\<close>, whose
     declaration is not among the sources. The upload handler inserts the owner, the
     week and the status \<^verbatim>\<open>'PENDING'\<close>; the spec says that a submission is created
     with all counters zero.\<close>
  "new_submission i u w =
     \<lparr>sub_id = i, user_id = u, week_number = w, status = ''PENDING'', times_shown = 0,
      thumbs_up = 0, thumbs_down = 0, total_votes = 0, votes_completed = 0,
      qualified_at = None, is_winner = False\<rparr>"

definition accept_all :: "db \<Rightarrow> user_vote \<Rightarrow> bool" where
  \<comment> \<open>a table \<open>user_votes\<close> that constrains nothing but its key\<close>
  "accept_all d v = True"

definition numbers_only :: "db \<Rightarrow> user_vote \<Rightarrow> bool" where
  \<comment> \<open>a table \<open>user_votes\<close> whose column \<open>vote_value\<close> holds numbers\<close>
  "numbers_only d v = (case vote_value v of JNum x \<Rightarrow> True | _ \<Rightarrow> False)"

definition ballots :: "nat \<Rightarrow> nat list \<Rightarrow> user_vote list" where
  \<comment> \<open>thumbs-up votes of one voter on the submissions listed\<close>
  "ballots v sids = map (\<lambda>i. \<lparr>voter_id = v, submission_id = i, vote_value = JNum 1\<rparr>) sids"

definition table_order :: "submission \<Rightarrow> nat" where
  \<comment> \<open>draws of \<^verbatim>\<open>RANDOM()\<close> that leave equally shown rows in the order of the table\<close>
  "table_order s = 0"

definition batch_store :: db where
  \<comment> \<open>user 2 owns a qualified submission, user 3 a pending one; user 9 has voted on
     a third submission and owns a fourth\<close>
  "batch_store =
     \<lparr>submissions = [(new_submission 1 2 1)\<lparr>status := ''QUALIFIED''\<rparr>, new_submission 2 3 1,
                     (new_submission 3 4 1)\<lparr>status := ''QUALIFIED''\<rparr>, new_submission 4 9 1],
      user_votes = ballots 9 [3]\<rparr>"

definition early_store :: db where
  \<comment> \<open>nobody has qualified yet: three pending submissions, and user 3 has voted on
     a submission that is gone\<close>
  "early_store =
     \<lparr>submissions = [new_submission 2 3 1, new_submission 4 9 1, new_submission 5 6 1],
      user_votes = ballots 3 [7]\<rparr>"



definition two_entries_store :: db where
  \<comment> \<open>user 5 owns a submission that was made a winner and a pending one, and has
     cast 24 votes\<close>
  "two_entries_store =
     \<lparr>submissions = [(new_submission 1 5 1)\<lparr>status := ''winner'', is_winner := True\<rparr>,
                     new_submission 2 5 2],
      user_votes = ballots 5 [10..<34]\<rparr>"

subsection \<open>Theorems: competition clock\<close>

lemma getCurrentWeek_unfold:
  "getCurrentWeek now =
     (if (now - startDate) div msPerDay div 7 + 1 < 1 then 0
      else if (now - startDate) div msPerDay div 7 + 1 > 10 then 11
      else (now - startDate) div msPerDay div 7 + 1)"
  by (simp add: getCurrentWeek_def Let_def)

lemma week_index:
  "(now - startDate) div msPerDay div 7 = (now - startDate) div (7 * msPerDay)"
  by (simp add: msPerDay_def div_mult2_eq mult.commute)

text \<open>
  Claim C8. The week number is a function of the clock reading and the fixed start
  date alone. It is 0 at every instant before the start date, \<open>k\<close> (with
  \<open>1 \<le> k \<le> 10\<close>) in the \<open>k\<close>-th bucket of seven days from the start, and 11 from
  day 70 on; so it is 1 at the start date itself, 0 one day before it, and 11 at
  day 70.
\<close>

theorem getCurrentWeek_buckets:
  "(\<forall>now. now < startDate \<longrightarrow> getCurrentWeek now = 0)
   \<and> (\<forall>now k. 1 \<le> k \<and> k \<le> 10
         \<and> startDate + (k - 1) * (7 * msPerDay) \<le> now
         \<and> now < startDate + k * (7 * msPerDay)
        \<longrightarrow> getCurrentWeek now = k)
   \<and> (\<forall>now. startDate + 70 * msPerDay \<le> now \<longrightarrow> getCurrentWeek now = 11)
   \<and> getCurrentWeek startDate = 1
   \<and> getCurrentWeek (startDate - msPerDay) = 0
   \<and> getCurrentWeek (startDate + 70 * msPerDay) = 11"
proof -
  have pos: "(0::int) < 7 * msPerDay"
    by (simp add: msPerDay_def)
  have before: "getCurrentWeek now = 0" if "now < startDate" for now
  proof -
    from that have "now - startDate < 0" by simp
    with pos have "(now - startDate) div (7 * msPerDay) < 0"
      by (simp add: div_neg_pos_less0)
    then show ?thesis
      by (simp add: getCurrentWeek_unfold week_index)
  qed
  have during: "getCurrentWeek now = k"
    if "1 \<le> k" "k \<le> 10" "startDate + (k - 1) * (7 * msPerDay) \<le> now"
       "now < startDate + k * (7 * msPerDay)" for now k
  proof -
    let ?d = "now - startDate"
    let ?w = "7 * msPerDay"
    from that have lo: "(k - 1) * ?w \<le> ?d" and hi: "?d < k * ?w"
      by simp_all
    have "?d div ?w = k - 1"
    proof (rule int_div_pos_eq)
      show "?d = ?w * (k - 1) + (?d - ?w * (k - 1))"
        by simp
      from lo show "0 \<le> ?d - ?w * (k - 1)"
        by (simp add: mult.commute)
      from hi show "?d - ?w * (k - 1) < ?w"
        by (simp add: algebra_simps)
    qed
    with that(1,2) show ?thesis
      by (simp add: getCurrentWeek_unfold week_index)
  qed
  have after: "getCurrentWeek now = 11" if "startDate + 70 * msPerDay \<le> now" for now
  proof -
    from that have "10 * (7 * msPerDay) \<le> now - startDate"
      by simp
    with pos have "(10 * (7 * msPerDay)) div (7 * msPerDay) \<le> (now - startDate) div (7 * msPerDay)"
      by (intro zdiv_mono1)
    with pos have "10 \<le> (now - startDate) div (7 * msPerDay)"
      by simp
    then show ?thesis
      by (simp add: getCurrentWeek_unfold week_index)
  qed
  have at_start: "getCurrentWeek startDate = 1"
    by (simp add: getCurrentWeek_unfold)
  have day_before: "getCurrentWeek (startDate - msPerDay) = 0"
    by (rule before) (simp add: msPerDay_def)
  have day_70: "getCurrentWeek (startDate + 70 * msPerDay) = 11"
    by (rule after) simp
  from before during after at_start day_before day_70 show ?thesis
    by blast
qed

theorem getCurrentWeek_buckets_witness:
  "getCurrentWeek (startDate - 1) = 0
   \<and> getCurrentWeek (startDate + 3 * (7 * msPerDay) - 1) = 3
   \<and> getCurrentWeek (startDate + 71 * msPerDay) = 11"
proof -
  have b: "startDate - 1 < startDate"
    by simp
  have d: "(1::int) \<le> 3 \<and> (3::int) \<le> 10
      \<and> startDate + (3 - 1) * (7 * msPerDay) \<le> startDate + 3 * (7 * msPerDay) - 1
      \<and> startDate + 3 * (7 * msPerDay) - 1 < startDate + 3 * (7 * msPerDay)"
    by (simp add: msPerDay_def)
  have a: "startDate + 70 * msPerDay \<le> startDate + 71 * msPerDay"
    by (simp add: msPerDay_def)
  from getCurrentWeek_buckets b d a show ?thesis
    by blast
qed

subsection \<open>Theorems: the vote handler, row by row\<close>


lemma filter_update_where:
  "(\<And>r. P (f r) = P r) \<Longrightarrow> filter P (update_where q f rows) = update_where q f (filter P rows)"
  by (induction rows) (auto simp: update_where_def)

lemma tally_fields [simp]:
  "user_id (tally val s) = user_id s" "status (tally val s) = status s"
  "sub_id (tally val s) = sub_id s" "qualified_at (tally val s) = qualified_at s"
  "votes_completed (tally val s) = votes_completed s"
  "week_number (tally val s) = week_number s" "times_shown (tally val s) = times_shown s"
  by (simp_all add: tally_def)

lemma cast_row_fields [simp]:
  "user_id (cast_row now u sid val n q s) = user_id s"
  "sub_id (cast_row now u sid val n q s) = sub_id s"
  "week_number (cast_row now u sid val n q s) = week_number s"
  "times_shown (cast_row now u sid val n q s) = times_shown s"
  by (simp_all add: cast_row_def Let_def)

lemma cast_row_status:
  "status (cast_row now u sid val n q s) = (if user_id s = u \<and> q then ''QUALIFIED'' else status s)"
  by (simp add: cast_row_def Let_def)

lemma cast_row_qualified_at:
  "qualified_at (cast_row now u sid val n q s) = (if user_id s = u \<and> q then Some now else qualified_at s)"
  by (simp add: cast_row_def Let_def)

lemma cast_row_votes_completed:
  "votes_completed (cast_row now u sid val n q s) = (if user_id s = u then n else votes_completed s)"
  by (simp add: cast_row_def Let_def)

lemma cast_row_tallies:
  "thumbs_up (cast_row now u sid val n q s) =
     (if sub_id s = sid \<and> val = JNum 1 then thumbs_up s + 1 else thumbs_up s)"
  "thumbs_down (cast_row now u sid val n q s) =
     (if sub_id s = sid \<and> val \<noteq> JNum 1 then thumbs_down s + 1 else thumbs_down s)"
  "total_votes (cast_row now u sid val n q s) =
     (if sub_id s = sid then total_votes s + 1 else total_votes s)"
  by (simp_all add: cast_row_def tally_def Let_def)

lemma castVote_alt:
  "castVote admits first now d v sid val =
     (let row = \<lparr>voter_id = v, submission_id = sid, vote_value = val\<rparr>;
          votes = insert_vote row (user_votes d);
          rows = update_where (\<lambda>s. sub_id s = sid) (tally val) (submissions d)
      in if \<not> admits d row then (VoteFailed, d)
         else case filter (\<lambda>s. user_id s = v) rows of
             [] \<Rightarrow> (VoteOk 0 False, \<lparr>submissions = rows, user_votes = votes\<rparr>)
           | r # rs \<Rightarrow>
               let n = int (length (filter (\<lambda>x. voter_id x = v) votes));
                   progress = update_where (\<lambda>s. user_id s = v) (\<lambda>s. s\<lparr>votes_completed := n\<rparr>) rows
               in if n \<ge> 25 \<and> status ((r # rs) ! (first mod length (r # rs))) = ''PENDING''
                  then (VoteOk n True,
                        \<lparr>submissions = update_where (\<lambda>s. user_id s = v)
                            (\<lambda>s. s\<lparr>status := ''QUALIFIED'', qualified_at := Some now\<rparr>) progress,
                         user_votes = votes\<rparr>)
                  else (VoteOk n False, \<lparr>submissions = progress, user_votes = votes\<rparr>))"
proof -
  have up: "tally (JNum 1) = (\<lambda>s. s\<lparr>thumbs_up := thumbs_up s + 1, total_votes := total_votes s + 1\<rparr>)"
    by (auto simp: tally_def)
  have down: "tally val = (\<lambda>s. s\<lparr>thumbs_down := thumbs_down s + 1, total_votes := total_votes s + 1\<rparr>)"
    if "val \<noteq> JNum 1"
    using that by (auto simp: tally_def)
  have rec: "d\<lparr>user_votes := a, submissions := b\<rparr> = \<lparr>submissions = b, user_votes = a\<rparr>" for a b
    by (cases d) simp
  show ?thesis
  proof (cases "val = JNum 1")
    case True
    show ?thesis
      unfolding True
      by (simp add: castVote_def Let_def own_rows_def votes_of_def up rec
               split: list.split)
  next
    case False
    show ?thesis
      by (simp add: castVote_def Let_def own_rows_def votes_of_def down [OF False] False rec
               split: list.split)
  qed
qed

lemma nth_first_mem: "rows \<noteq> [] \<Longrightarrow> rows ! (first mod length rows) \<in> set rows"
  by simp

lemma guard_after_tally:
  "(case filter (\<lambda>s. user_id s = v) (update_where (\<lambda>s. sub_id s = sid) (tally val) (submissions d))
      of [] \<Rightarrow> None | r # rs \<Rightarrow> Some (status ((r # rs) ! (first mod length (r # rs)))))
   = guard_status first d v"
proof -
  let ?g = "\<lambda>r. if sub_id r = sid then tally val r else r"
  have own: "filter (\<lambda>s. user_id s = v) (update_where (\<lambda>s. sub_id s = sid) (tally val) (submissions d))
        = map ?g (own_rows d v)"
    unfolding own_rows_def update_where_def [symmetric] by (rule filter_update_where) simp
  show ?thesis
  proof (cases "own_rows d v")
    case Nil
    then show ?thesis
      unfolding own by (simp add: guard_status_def)
  next
    case (Cons x xs)
    let ?i = "first mod length (x # xs)"
    have "?i < length (x # xs)" by simp
    then have "map ?g (x # xs) ! ?i = ?g ((x # xs) ! ?i)"
      by (rule nth_map)
    then have "status (map ?g (x # xs) ! ?i) = status ((x # xs) ! ?i)"
      by simp
    then show ?thesis
      unfolding own Cons guard_status_def by simp
  qed
qed

lemma guard_status_None: "guard_status first d v = None \<longleftrightarrow> own_rows d v = []"
  by (simp add: guard_status_def split: list.split)

lemma castVote_rows:
  fixes first :: nat
  assumes "admits d \<lparr>voter_id = v, submission_id = sid, vote_value = val\<rparr>"
  defines "votes \<equiv> insert_vote \<lparr>voter_id = v, submission_id = sid, vote_value = val\<rparr> (user_votes d)"
  defines "n \<equiv> int (length (filter (\<lambda>x. voter_id x = v) votes))"
  defines "q \<equiv> n \<ge> 25 \<and> guard_status first d v = Some ''PENDING''"
  shows "castVote admits first now d v sid val =
     (VoteOk (if own_rows d v = [] then 0 else n) q,
      \<lparr>submissions = map (cast_row now v sid val n q) (submissions d), user_votes = votes\<rparr>)"
proof -
  let ?rows = "update_where (\<lambda>s. sub_id s = sid) (tally val) (submissions d)"
  let ?own = "filter (\<lambda>s. user_id s = v) ?rows"
  have g: "(case ?own of [] \<Rightarrow> None
            | r # rs \<Rightarrow> Some (status ((r # rs) ! (first mod length (r # rs)))))
           = guard_status first d v"
    by (rule guard_after_tally)
  show ?thesis
  proof (cases ?own)
    case Nil
    with g have none: "guard_status first d v = None" by simp
    then have own: "own_rows d v = []" by (simp add: guard_status_None)
    have "\<forall>s\<in>set (submissions d). user_id s \<noteq> v"
      using own by (auto simp: own_rows_def filter_empty_conv)
    then have "map (cast_row now v sid val n q) (submissions d) = ?rows"
      by (auto simp: update_where_def cast_row_def Let_def q_def none)
    with Nil assms(1) own show ?thesis
      by (simp add: castVote_alt Let_def votes_def q_def none)
  next
    case (Cons x xs)
    with g have some: "guard_status first d v =
        Some (status ((x # xs) ! (first mod length (x # xs))))" by simp
    then have own: "own_rows d v \<noteq> []" using guard_status_None [of first d v] by simp
    have "map (cast_row now v sid val n q) (submissions d) =
        (if q then update_where (\<lambda>s. user_id s = v)
                            (\<lambda>s. s\<lparr>status := ''QUALIFIED'', qualified_at := Some now\<rparr>)
                     (update_where (\<lambda>s. user_id s = v) (\<lambda>s. s\<lparr>votes_completed := n\<rparr>) ?rows)
         else update_where (\<lambda>s. user_id s = v) (\<lambda>s. s\<lparr>votes_completed := n\<rparr>) ?rows)"
      by (auto simp: update_where_def cast_row_def Let_def)
    with Cons assms(1) own show ?thesis
      by (simp add: castVote_alt Let_def votes_def [symmetric] n_def [symmetric] q_def some)
  qed
qed


subsection \<open>Theorems: tallies\<close>

lemma castVote_rejected:
  "\<not> admits d \<lparr>voter_id = v, submission_id = sid, vote_value = val\<rparr>
   \<Longrightarrow> castVote admits first now d v sid val = (VoteFailed, d)"
  by (simp add: castVote_def)

lemma castVote_tally_inv:
  assumes "\<forall>s\<in>set (submissions d). total_votes s = thumbs_up s + thumbs_down s"
  shows "\<forall>s\<in>set (submissions (snd (castVote admits first now d v sid val))).
           total_votes s = thumbs_up s + thumbs_down s"
proof (cases "admits d \<lparr>voter_id = v, submission_id = sid, vote_value = val\<rparr>")
  case True
  from assms show ?thesis
    by (auto simp: castVote_rows [where admits = admits and d = d, OF True] cast_row_tallies)
next
  case False
  with assms show ?thesis
    by (simp add: castVote_rejected)
qed

text \<open>
  Claim C5. After any sequence of requests to the vote endpoint, every submission has
  \<open>total_votes = thumbs_up + thumbs_down\<close>, provided the equation held before the
  first request, as it does for submissions that are created with all counters
  zero.
\<close>

theorem tally_invariant:
  assumes "\<forall>s\<in>set (submissions d). total_votes s = thumbs_up s + thumbs_down s"
  shows "\<forall>s\<in>set (submissions (castVotes admits d reqs)).
           total_votes s = thumbs_up s + thumbs_down s"
  using assms
proof (induction reqs arbitrary: d)
  case Nil
  then show ?case by simp
next
  case (Cons r rs)
  have "\<forall>s\<in>set (submissions (snd (serve admits d r))). total_votes s = thumbs_up s + thumbs_down s"
    unfolding serve_def by (rule castVote_tally_inv) (rule Cons.prems)
  from Cons.IH [OF this] show ?case by simp
qed

theorem tally_invariant_witness:
  "list_all (\<lambda>s. total_votes s = thumbs_up s + thumbs_down s)
     (submissions \<lparr>submissions = [new_submission 1 7 1, new_submission 2 8 1], user_votes = []\<rparr>)
   \<and> list_all (\<lambda>s. total_votes s = thumbs_up s + thumbs_down s)
     (submissions (castVotes numbers_only
          \<lparr>submissions = [new_submission 1 7 1, new_submission 2 8 1], user_votes = []\<rparr>
          [\<lparr>req_first = 0, req_time = 10, req_voter = 8, req_submission = 1, req_value = JNum 1\<rparr>,
           \<lparr>req_first = 0, req_time = 11, req_voter = 8, req_submission = 1, req_value = JNum 0\<rparr>,
           \<lparr>req_first = 0, req_time = 12, req_voter = 7, req_submission = 2, req_value = JStr ''up''\<rparr>]))
   \<and> map total_votes (submissions (castVotes numbers_only
          \<lparr>submissions = [new_submission 1 7 1, new_submission 2 8 1], user_votes = []\<rparr>
          [\<lparr>req_first = 0, req_time = 10, req_voter = 8, req_submission = 1, req_value = JNum 1\<rparr>,
           \<lparr>req_first = 0, req_time = 11, req_voter = 8, req_submission = 1, req_value = JNum 0\<rparr>,
           \<lparr>req_first = 0, req_time = 12, req_voter = 7, req_submission = 2, req_value = JStr ''up''\<rparr>])) = [2, 0]"
proof -
  let ?d = "\<lparr>submissions = [new_submission 1 7 1, new_submission 2 8 1], user_votes = []\<rparr>"
  have h: "\<forall>s\<in>set (submissions ?d). total_votes s = thumbs_up s + thumbs_down s"
    by (simp add: new_submission_def)
  have "map total_votes (submissions (castVotes numbers_only ?d
          [\<lparr>req_first = 0, req_time = 10, req_voter = 8, req_submission = 1, req_value = JNum 1\<rparr>,
           \<lparr>req_first = 0, req_time = 11, req_voter = 8, req_submission = 1, req_value = JNum 0\<rparr>,
           \<lparr>req_first = 0, req_time = 12, req_voter = 7, req_submission = 2, req_value = JStr ''up''\<rparr>])) = [2, 0]"
    by (simp add: serve_def castVote_def numbers_only_def new_submission_def insert_vote_def
          update_where_def own_rows_def votes_of_def Let_def)
  with h tally_invariant [OF h] show ?thesis
    unfolding list_all_iff by blast
qed

text \<open>
  Claim C9, as stated, fails. It says that every vote value other than 1, malformed
  ones included, is recorded and counted as a thumbs-down. Whether a malformed value
  gets that far is up to the store: with a column \<open>vote_value\<close> that holds numbers,
  the value \<^verbatim>\<open>'up'\<close> makes the \<^verbatim>\<open>INSERT\<close> fail, the handler answers from its
  \<^verbatim>\<open>catch\<close> block, and nothing is recorded or counted.
\<close>

theorem malformed_value_counterexample:
  "JStr ''up'' \<noteq> JNum 1
   \<and> castVote numbers_only 0 0 \<lparr>submissions = [new_submission 1 7 1], user_votes = []\<rparr> 8 1 (JStr ''up'') =
       (VoteFailed, \<lparr>submissions = [new_submission 1 7 1], user_votes = []\<rparr>)"
  by (simp add: castVote_def numbers_only_def)

text \<open>
  Claim C9, amended. The handler does not validate the vote value and has no answer
  of its own for a value outside the domain. Every value other than the number 1
  (a string, a missing field, another number) that the store accepts is answered
  with success, is the value of the row offered to the ledger, and adds one to
  \<open>thumbs_down\<close> and to \<open>total_votes\<close> of the submission, never to \<open>thumbs_up\<close>.
  A value that the store does not accept is answered with the failure of the
  \<^verbatim>\<open>catch\<close> block, and the store stays as it was.
\<close>

theorem other_values_count_down:
  assumes "voteValue \<noteq> JNum 1"
    and "castVote admits first now d voterId submissionId voteValue = (resp, d')"
  shows "(admits d \<lparr>voter_id = voterId, submission_id = submissionId, vote_value = voteValue\<rparr> \<longrightarrow>
      (\<exists>n q. resp = VoteOk n q)
      \<and> user_votes d' =
          insert_vote \<lparr>voter_id = voterId, submission_id = submissionId, vote_value = voteValue\<rparr>
            (user_votes d)
      \<and> map thumbs_down (submissions d') =
          map (\<lambda>s. if sub_id s = submissionId then thumbs_down s + 1 else thumbs_down s) (submissions d)
      \<and> map total_votes (submissions d') =
          map (\<lambda>s. if sub_id s = submissionId then total_votes s + 1 else total_votes s) (submissions d)
      \<and> map thumbs_up (submissions d') = map thumbs_up (submissions d))
    \<and> (\<not> admits d \<lparr>voter_id = voterId, submission_id = submissionId, vote_value = voteValue\<rparr> \<longrightarrow>
      resp = VoteFailed \<and> d' = d)"
proof (cases "admits d \<lparr>voter_id = voterId, submission_id = submissionId, vote_value = voteValue\<rparr>")
  case True
  from assms show ?thesis
    unfolding castVote_rows [where admits = admits and d = d, OF True]
    using True by (auto simp: cast_row_tallies)
next
  case False
  with assms(2) show ?thesis
    by (simp add: castVote_rejected)
qed

theorem other_values_count_down_witness:
  "JStr ''up'' \<noteq> JNum 1
   \<and> accept_all \<lparr>submissions = [new_submission 1 7 1], user_votes = []\<rparr>
        \<lparr>voter_id = 8, submission_id = 1, vote_value = JStr ''up''\<rparr>
   \<and> user_votes (snd (castVote accept_all 0 0 \<lparr>submissions = [new_submission 1 7 1], user_votes = []\<rparr> 8 1 (JStr ''up'')))
       = [\<lparr>voter_id = 8, submission_id = 1, vote_value = JStr ''up''\<rparr>]
   \<and> map thumbs_down (submissions (snd (castVote accept_all 0 0 \<lparr>submissions = [new_submission 1 7 1], user_votes = []\<rparr> 8 1 (JStr ''up'')))) = [1]
   \<and> map thumbs_up (submissions (snd (castVote accept_all 0 0 \<lparr>submissions = [new_submission 1 7 1], user_votes = []\<rparr> 8 1 (JStr ''up'')))) = [0]
   \<and> \<not> numbers_only \<lparr>submissions = [new_submission 1 7 1], user_votes = []\<rparr>
        \<lparr>voter_id = 8, submission_id = 1, vote_value = JStr ''up''\<rparr>
   \<and> fst (castVote numbers_only 0 0 \<lparr>submissions = [new_submission 1 7 1], user_votes = []\<rparr> 8 1 (JStr ''up''))
       = VoteFailed
   \<and> snd (castVote numbers_only 0 0 \<lparr>submissions = [new_submission 1 7 1], user_votes = []\<rparr> 8 1 (JStr ''up''))
       = \<lparr>submissions = [new_submission 1 7 1], user_votes = []\<rparr>"
proof -
  let ?d = "\<lparr>submissions = [new_submission 1 7 1], user_votes = []\<rparr>"
  let ?a = "castVote accept_all 0 0 ?d 8 1 (JStr ''up'')"
  let ?b = "castVote numbers_only 0 0 ?d 8 1 (JStr ''up'')"
  have v: "JStr ''up'' \<noteq> JNum 1" by simp
  have a: "accept_all ?d \<lparr>voter_id = 8, submission_id = 1, vote_value = JStr ''up''\<rparr>"
    by (simp add: accept_all_def)
  have b: "\<not> numbers_only ?d \<lparr>voter_id = 8, submission_id = 1, vote_value = JStr ''up''\<rparr>"
    by (simp add: numbers_only_def)
  have ra: "?a = (fst ?a, snd ?a)" and rb: "?b = (fst ?b, snd ?b)"
    by simp_all
  from other_values_count_down [OF v ra] a
  have "user_votes (snd ?a) = insert_vote \<lparr>voter_id = 8, submission_id = 1, vote_value = JStr ''up''\<rparr> (user_votes ?d)"
    and "map thumbs_down (submissions (snd ?a)) =
          map (\<lambda>s. if sub_id s = 1 then thumbs_down s + 1 else thumbs_down s) (submissions ?d)"
    and "map thumbs_up (submissions (snd ?a)) = map thumbs_up (submissions ?d)"
    by blast+
  then have 1: "user_votes (snd ?a) = [\<lparr>voter_id = 8, submission_id = 1, vote_value = JStr ''up''\<rparr>]"
    "map thumbs_down (submissions (snd ?a)) = [1]" "map thumbs_up (submissions (snd ?a)) = [0]"
    by (simp_all add: insert_vote_def new_submission_def)
  from other_values_count_down [OF v rb] b
  have 2: "fst ?b = VoteFailed" "snd ?b = ?d"
    by blast+
  from v a b 1 2 show ?thesis
    by blast
qed

subsection \<open>Theorems: who may vote on what\<close>

lemma votes_of_insert:
  "filter (\<lambda>x. voter_id x = v) (insert_vote row votes) =
     (if voter_id row = v
         \<and> \<not> (\<exists>r\<in>set votes. voter_id r = voter_id row \<and> submission_id r = submission_id row)
      then filter (\<lambda>x. voter_id x = v) votes @ [row]
      else filter (\<lambda>x. voter_id x = v) votes)"
  by (simp add: insert_vote_def)

lemma own_rows_map:
  "(\<And>s. user_id (f s) = user_id s) \<Longrightarrow>
   own_rows \<lparr>submissions = map f rows, user_votes = votes\<rparr> v =
   map f (filter (\<lambda>s. user_id s = v) rows)"
  by (simp add: own_rows_def filter_map comp_def)

lemma guard_status_nonempty:
  "own_rows d v = rows \<Longrightarrow> rows \<noteq> [] \<Longrightarrow>
   guard_status first d v = Some (status (rows ! (first mod length rows)))"
  by (auto simp: guard_status_def split: list.split)

text \<open>
  Claim C1 says that a vote of a user on their own submission fails and leaves the
  counters of the submission as they are. The handler does not do so: it never
  compares the voter with the owner. User 7 votes on submission 1, which user 7
  owns, and the answer is success, with the vote in the ledger and in the tallies.
\<close>

theorem self_vote_is_counted:
  "user_id (new_submission 1 7 1) = 7
   \<and> castVote numbers_only 0 0 \<lparr>submissions = [new_submission 1 7 1], user_votes = []\<rparr> 7 1 (JNum 1) =
      (VoteOk 1 False,
       \<lparr>submissions = [(new_submission 1 7 1)\<lparr>thumbs_up := 1, total_votes := 1, votes_completed := 1\<rparr>],
        user_votes = [\<lparr>voter_id = 7, submission_id = 1, vote_value = JNum 1\<rparr>]\<rparr>)"
  by (simp add: castVote_def numbers_only_def new_submission_def insert_vote_def
        update_where_def own_rows_def votes_of_def Let_def)

text \<open>
  Claim C2 says that a second vote for the same voter and submission, whatever its
  value, is a no-op for the ledger, is answered with success, and leaves the
  tallies as the first vote left them. The handler keeps the first two promises and
  breaks the third. Voter 9 votes on submission 1 twice, first up, then down: the
  ledger keeps the first vote only, yet the tallies count both requests, since the
  \<^verbatim>\<open>UPDATE\<close> of the tallies runs whether or not the \<^verbatim>\<open>INSERT\<close> met a conflict.
\<close>

theorem duplicate_vote_counted_again:
  "castVotes numbers_only \<lparr>submissions = [new_submission 1 7 1], user_votes = []\<rparr>
     [\<lparr>req_first = 0, req_time = 10, req_voter = 9, req_submission = 1, req_value = JNum 1\<rparr>,
      \<lparr>req_first = 0, req_time = 11, req_voter = 9, req_submission = 1, req_value = JNum 0\<rparr>] =
   \<lparr>submissions = [(new_submission 1 7 1)\<lparr>thumbs_up := 1, thumbs_down := 1, total_votes := 2\<rparr>],
    user_votes = [\<lparr>voter_id = 9, submission_id = 1, vote_value = JNum 1\<rparr>]\<rparr>"
  by (simp add: serve_def castVote_def numbers_only_def new_submission_def insert_vote_def
        update_where_def own_rows_def votes_of_def Let_def)

subsection \<open>Theorems: qualification\<close>

text \<open>
  Claim C10. Let the voter own the rows \<open>rows\<close>, and let the store return the one at
  position \<open>first mod length rows\<close> first. A request that the store accepts writes
  the number of votes cast to \<open>votes_completed\<close> of every submission of the voter.
  The guard reads the status of that one row, whichever it is: when it is
  \<^verbatim>\<open>'PENDING'\<close> and 25 votes are reached, every submission of the voter becomes
  \<^verbatim>\<open>'QUALIFIED'\<close> with \<open>qualified_at\<close> set to the time of the request; otherwise
  no status and no \<open>qualified_at\<close> changes.
\<close>

theorem qualification_covers_all_own_rows:
  assumes "admits d \<lparr>voter_id = voterId, submission_id = submissionId, vote_value = voteValue\<rparr>"
    and "own_rows d voterId = rows" and "rows \<noteq> []"
    and "castVote admits first now d voterId submissionId voteValue = (resp, d')"
  shows "rows ! (first mod length rows) \<in> set rows
    \<and> resp = VoteOk (int (votes_cast d' voterId))
                  (25 \<le> votes_cast d' voterId \<and> status (rows ! (first mod length rows)) = ''PENDING'')
    \<and> map sub_id (own_rows d' voterId) = map sub_id rows
    \<and> (\<forall>s\<in>set (own_rows d' voterId). votes_completed s = int (votes_cast d' voterId))
    \<and> (25 \<le> votes_cast d' voterId \<and> status (rows ! (first mod length rows)) = ''PENDING'' \<longrightarrow>
         (\<forall>s\<in>set (own_rows d' voterId). status s = ''QUALIFIED'' \<and> qualified_at s = Some now))
    \<and> (\<not> (25 \<le> votes_cast d' voterId \<and> status (rows ! (first mod length rows)) = ''PENDING'') \<longrightarrow>
         map status (submissions d') = map status (submissions d)
         \<and> map qualified_at (submissions d') = map qualified_at (submissions d))"
proof -
  define votes where "votes = insert_vote \<lparr>voter_id = voterId, submission_id = submissionId, vote_value = voteValue\<rparr> (user_votes d)"
  define n where "n = int (length (filter (\<lambda>x. voter_id x = voterId) votes))"
  define q where "q \<longleftrightarrow> n \<ge> 25 \<and> guard_status first d voterId = Some ''PENDING''"
  define g where "g = rows ! (first mod length rows)"
  from assms(2,3) have own: "own_rows d voterId \<noteq> []" by simp
  have gs: "guard_status first d voterId = Some (status g)"
    unfolding g_def using assms(2,3) by (rule guard_status_nonempty)
  have 0: "g \<in> set rows"
    unfolding g_def using assms(3) by (rule nth_first_mem)
  from assms(4) own have resp: "resp = VoteOk n q"
    and d': "d' = \<lparr>submissions = map (cast_row now voterId submissionId voteValue n q) (submissions d),
                   user_votes = votes\<rparr>"
    unfolding castVote_rows [where admits = admits and d = d, OF assms(1)] q_def n_def votes_def
    by simp_all
  have n: "int (votes_cast d' voterId) = n"
    by (simp add: d' votes_cast_def votes_of_def n_def)
  have rows: "own_rows d' voterId = map (cast_row now voterId submissionId voteValue n q) rows"
    unfolding d' assms(2) [symmetric] own_rows_def [of d] by (rule own_rows_map) simp
  have q: "q \<longleftrightarrow> 25 \<le> votes_cast d' voterId \<and> status g = ''PENDING''"
    unfolding q_def n [symmetric] gs by simp
  have 1: "resp = VoteOk (int (votes_cast d' voterId))
                  (25 \<le> votes_cast d' voterId \<and> status g = ''PENDING'')"
    unfolding resp n q ..
  have 2: "map sub_id (own_rows d' voterId) = map sub_id rows"
    unfolding rows by simp
  have own_user: "\<forall>s\<in>set rows. user_id s = voterId"
    unfolding assms(2) [symmetric] by (simp add: own_rows_def)
  have 3: "\<forall>s\<in>set (own_rows d' voterId). votes_completed s = int (votes_cast d' voterId)"
    unfolding rows n using own_user by (auto simp: cast_row_votes_completed)
  have 4: "\<forall>s\<in>set (own_rows d' voterId). status s = ''QUALIFIED'' \<and> qualified_at s = Some now"
    if "25 \<le> votes_cast d' voterId \<and> status g = ''PENDING''"
  proof -
    from that q have q by simp
    with own_user show ?thesis
      unfolding rows by (auto simp: cast_row_status cast_row_qualified_at)
  qed
  have 5: "map status (submissions d') = map status (submissions d)
         \<and> map qualified_at (submissions d') = map qualified_at (submissions d)"
    if "\<not> (25 \<le> votes_cast d' voterId \<and> status g = ''PENDING'')"
  proof -
    from that q have "\<not> q" by simp
    then show ?thesis
      unfolding d' by (simp add: comp_def cast_row_status cast_row_qualified_at)
  qed
  from 0 1 2 3 4 5 show ?thesis
    unfolding g_def by blast
qed

theorem qualification_covers_all_own_rows_witness:
  "accept_all \<lparr>submissions = [new_submission 1 5 1, new_submission 2 5 2, new_submission 3 6 2],
               user_votes = ballots 5 [10..<34]\<rparr>
      \<lparr>voter_id = 5, submission_id = 3, vote_value = JNum 1\<rparr>
   \<and> own_rows \<lparr>submissions = [new_submission 1 5 1, new_submission 2 5 2, new_submission 3 6 2],
               user_votes = ballots 5 [10..<34]\<rparr> 5 = [new_submission 1 5 1, new_submission 2 5 2]
   \<and> [new_submission 1 5 1, new_submission 2 5 2] ! (1 mod length [new_submission 1 5 1, new_submission 2 5 2])
       = new_submission 2 5 2
   \<and> fst (castVote accept_all 1 99
        \<lparr>submissions = [new_submission 1 5 1, new_submission 2 5 2, new_submission 3 6 2],
         user_votes = ballots 5 [10..<34]\<rparr> 5 3 (JNum 1)) = VoteOk 25 True
   \<and> map status (submissions (snd (castVote accept_all 1 99
        \<lparr>submissions = [new_submission 1 5 1, new_submission 2 5 2, new_submission 3 6 2],
         user_votes = ballots 5 [10..<34]\<rparr> 5 3 (JNum 1)))) = [''QUALIFIED'', ''QUALIFIED'', ''PENDING'']
   \<and> map qualified_at (submissions (snd (castVote accept_all 1 99
        \<lparr>submissions = [new_submission 1 5 1, new_submission 2 5 2, new_submission 3 6 2],
         user_votes = ballots 5 [10..<34]\<rparr> 5 3 (JNum 1)))) = [Some 99, Some 99, None]
   \<and> map votes_completed (submissions (snd (castVote accept_all 1 99
        \<lparr>submissions = [new_submission 1 5 1, new_submission 2 5 2, new_submission 3 6 2],
         user_votes = ballots 5 [10..<34]\<rparr> 5 3 (JNum 1)))) = [25, 25, 0]"
proof -
  let ?st = "\<lparr>submissions = [new_submission 1 5 1, new_submission 2 5 2, new_submission 3 6 2],
             user_votes = ballots 5 [10..<34]\<rparr>"
  let ?res = "castVote accept_all 1 99 ?st 5 3 (JNum 1)"
  have h1: "accept_all ?st \<lparr>voter_id = 5, submission_id = 3, vote_value = JNum 1\<rparr>"
    by (simp add: accept_all_def)
  have h2: "own_rows ?st 5 = [new_submission 1 5 1, new_submission 2 5 2]"
    by (simp add: own_rows_def new_submission_def)
  have h3: "[new_submission 1 5 1, new_submission 2 5 2] \<noteq> []"
    by simp
  have h4: "?res = (fst ?res, snd ?res)" by simp
  have i: "[new_submission 1 5 1, new_submission 2 5 2] ! (1 mod length [new_submission 1 5 1, new_submission 2 5 2])
       = new_submission 2 5 2"
    by simp
  have e: "?res = (VoteOk 25 True,
      \<lparr>submissions = [(new_submission 1 5 1)\<lparr>status := ''QUALIFIED'', votes_completed := 25, qualified_at := Some 99\<rparr>,
                      (new_submission 2 5 2)\<lparr>status := ''QUALIFIED'', votes_completed := 25, qualified_at := Some 99\<rparr>,
                      (new_submission 3 6 2)\<lparr>thumbs_up := 1, total_votes := 1\<rparr>],
       user_votes = ballots 5 [10..<34] @ [\<lparr>voter_id = 5, submission_id = 3, vote_value = JNum 1\<rparr>]\<rparr>)"
    by (simp add: castVote_def accept_all_def new_submission_def insert_vote_def
        update_where_def own_rows_def votes_of_def ballots_def Let_def)
  from qualification_covers_all_own_rows [OF h1 h2 h3 h4] h1 h2 i show ?thesis
    unfolding e by (simp add: new_submission_def)
qed

subsection \<open>Theorems: the quota\<close>

lemma is_qualifying_simps [simp]:
  "is_qualifying (VoteOk n q) = q" "is_qualifying VoteFailed = False"
  by (simp_all add: is_qualifying_def)

lemma ratchet_step:
  assumes inv: "ratchet d v"
    and res: "castVote admits first now d u sid val = (resp, d')"
  shows "ratchet d' v
    \<and> votes_cast d v \<le> votes_cast d' v
    \<and> votes_cast d' v \<le> Suc (votes_cast d v)
    \<and> (u \<noteq> v \<longrightarrow> votes_cast d' v = votes_cast d v)
    \<and> (u = v \<longrightarrow> (is_qualifying resp \<longleftrightarrow> votes_cast d v = 24 \<and> votes_cast d' v = 25))
    \<and> (u = v \<and> is_qualifying resp \<longrightarrow> (\<forall>s\<in>set (own_rows d' v). qualified_at s = Some now))
    \<and> (\<not> (u = v \<and> is_qualifying resp) \<longrightarrow>
          map qualified_at (own_rows d' v) = map qualified_at (own_rows d v)
          \<and> map status (own_rows d' v) = map status (own_rows d v))
    \<and> map sub_id (own_rows d' v) = map sub_id (own_rows d v)"
proof (cases "admits d \<lparr>voter_id = u, submission_id = sid, vote_value = val\<rparr>")
  case False
  with res have "resp = VoteFailed" "d' = d"
    by (simp_all add: castVote_rejected)
  with inv show ?thesis by simp
next
  case True
  define votes where "votes = insert_vote \<lparr>voter_id = u, submission_id = sid, vote_value = val\<rparr> (user_votes d)"
  define n where "n = int (length (filter (\<lambda>x. voter_id x = u) votes))"
  define q where "q \<longleftrightarrow> n \<ge> 25 \<and> guard_status first d u = Some ''PENDING''"
  from res have resp: "resp = VoteOk (if own_rows d u = [] then 0 else n) q"
    and d': "d' = \<lparr>submissions = map (cast_row now u sid val n q) (submissions d), user_votes = votes\<rparr>"
    unfolding castVote_rows [where admits = admits and d = d, OF True] q_def n_def votes_def
    by simp_all
  have cnt: "votes_cast d' v = length (filter (\<lambda>x. voter_id x = v) votes)"
    by (simp add: d' votes_cast_def votes_of_def)
  have cnt0: "votes_cast d v = length (filter (\<lambda>x. voter_id x = v) (user_votes d))"
    by (simp add: votes_cast_def votes_of_def)
  have c1: "votes_cast d v \<le> votes_cast d' v" and c2: "votes_cast d' v \<le> Suc (votes_cast d v)"
    and c3: "u \<noteq> v \<Longrightarrow> votes_cast d' v = votes_cast d v"
    unfolding cnt cnt0 votes_def by (simp_all add: votes_of_insert)
  have rows: "own_rows d' v = map (cast_row now u sid val n q) (own_rows d v)"
    unfolding d' own_rows_def [of d] by (rule own_rows_map) simp
  from inv have ne: "own_rows d v \<noteq> []"
    and st: "\<forall>s\<in>set (own_rows d v). status s = (if votes_cast d v < 25 then ''PENDING'' else ''QUALIFIED'')"
    by (simp_all add: ratchet_def)
  have own_user: "\<forall>s\<in>set (own_rows d v). user_id s = v"
    by (simp add: own_rows_def)
  show ?thesis
  proof (cases "u = v")
    case False
    then have same: "votes_cast d' v = votes_cast d v" by (rule c3)
    from False own_user have keep: "map qualified_at (own_rows d' v) = map qualified_at (own_rows d v)"
      "map status (own_rows d' v) = map status (own_rows d v)"
      "map sub_id (own_rows d' v) = map sub_id (own_rows d v)"
      unfolding rows by (simp_all add: comp_def cast_row_qualified_at cast_row_status)
    have "status (cast_row now u sid val n q s) =
        (if votes_cast d v < 25 then ''PENDING'' else ''QUALIFIED'')"
      if "s \<in> set (own_rows d v)" for s
    proof -
      from that own_user False have "user_id s \<noteq> u" by auto
      then have "status (cast_row now u sid val n q s) = status s"
        by (simp add: cast_row_status)
      with that st show ?thesis by simp
    qed
    then have "\<forall>s\<in>set (own_rows d' v). status s = (if votes_cast d v < 25 then ''PENDING'' else ''QUALIFIED'')"
      unfolding rows by simp
    moreover from ne have "own_rows d' v \<noteq> []" unfolding rows by simp
    ultimately have "ratchet d' v"
      by (simp add: ratchet_def same)
    with False same keep show ?thesis by simp
  next
    case uv: True
    have n': "n = int (votes_cast d' v)"
      unfolding n_def cnt uv ..
    from ne have "own_rows d v ! (first mod length (own_rows d v)) \<in> set (own_rows d v)"
      by (rule nth_first_mem)
    with st have "status (own_rows d v ! (first mod length (own_rows d v))) =
        (if votes_cast d v < 25 then ''PENDING'' else ''QUALIFIED'')"
      by simp
    moreover have "guard_status first d u =
        Some (status (own_rows d v ! (first mod length (own_rows d v))))"
      unfolding uv using refl ne by (rule guard_status_nonempty)
    ultimately have g: "guard_status first d u =
        Some (if votes_cast d v < 25 then ''PENDING'' else ''QUALIFIED'')"
      by simp
    have q: "q \<longleftrightarrow> 25 \<le> votes_cast d' v \<and> votes_cast d v < 25"
      unfolding q_def n' g by simp
    with c2 have q24: "q \<longleftrightarrow> votes_cast d v = 24 \<and> votes_cast d' v = 25"
      by auto
    from ne have resp': "resp = VoteOk n q"
      unfolding resp uv by simp
    have stat: "status (cast_row now u sid val n q s) =
        (if votes_cast d' v < 25 then ''PENDING'' else ''QUALIFIED'')"
      if "s \<in> set (own_rows d v)" for s
    proof -
      from that own_user have "user_id s = u" by (simp add: uv)
      moreover from that st have "status s = (if votes_cast d v < 25 then ''PENDING'' else ''QUALIFIED'')"
        by simp
      ultimately show ?thesis
        using c1 q by (auto simp: cast_row_status)
    qed
    from ne have "own_rows d' v \<noteq> []" unfolding rows by simp
    with stat have r: "ratchet d' v"
      unfolding ratchet_def rows by simp
    have stamp: "\<forall>s\<in>set (own_rows d' v). qualified_at s = Some now" if q
      using that own_user unfolding rows by (auto simp: cast_row_qualified_at uv)
    have keep: "map qualified_at (own_rows d' v) = map qualified_at (own_rows d v)
        \<and> map status (own_rows d' v) = map status (own_rows d v)" if "\<not> q"
      using that unfolding rows by (simp add: comp_def cast_row_qualified_at cast_row_status)
    have ids: "map sub_id (own_rows d' v) = map sub_id (own_rows d v)"
      unfolding rows by (simp add: comp_def)
    from r c1 c2 q24 stamp keep ids show ?thesis
      unfolding resp' by (simp add: uv)
  qed
qed


lemma ratchet_castVotes:
  "ratchet d v \<Longrightarrow>
   ratchet (castVotes admits d reqs) v \<and> votes_cast d v \<le> votes_cast (castVotes admits d reqs) v"
proof (induction reqs arbitrary: d)
  case Nil
  then show ?case by simp
next
  case (Cons r rs)
  let ?d1 = "snd (serve admits d r)"
  have "castVote admits (req_first r) (req_time r) d (req_voter r) (req_submission r) (req_value r)
        = (fst (serve admits d r), ?d1)"
    by (simp add: serve_def)
  from ratchet_step [OF Cons.prems this]
  have r1: "ratchet ?d1 v" and m: "votes_cast d v \<le> votes_cast ?d1 v"
    by simp_all
  from Cons.IH [OF r1] m show ?case
    by simp
qed

lemma qualifying_count:
  "ratchet d v \<Longrightarrow>
   length (filter (\<lambda>p. req_voter (fst p) = v \<and> is_qualifying (snd p)) (replies admits d reqs)) =
     (if votes_cast d v < 25 \<and> 25 \<le> votes_cast (castVotes admits d reqs) v then 1 else 0)"
proof (induction reqs arbitrary: d)
  case Nil
  then show ?case by simp
next
  case (Cons r rs)
  let ?resp = "fst (serve admits d r)"
  let ?d1 = "snd (serve admits d r)"
  let ?fin = "castVotes admits ?d1 rs"
  have "castVote admits (req_first r) (req_time r) d (req_voter r) (req_submission r) (req_value r) = (?resp, ?d1)"
    by (simp add: serve_def)
  from ratchet_step [OF Cons.prems this]
  have r1: "ratchet ?d1 v"
    and lo: "votes_cast d v \<le> votes_cast ?d1 v"
    and hi: "votes_cast ?d1 v \<le> Suc (votes_cast d v)"
    and other: "req_voter r \<noteq> v \<longrightarrow> votes_cast ?d1 v = votes_cast d v"
    and flag: "req_voter r = v \<longrightarrow> (is_qualifying ?resp \<longleftrightarrow> votes_cast d v = 24 \<and> votes_cast ?d1 v = 25)"
    by simp_all
  from ratchet_castVotes [OF r1] have mono: "votes_cast ?d1 v \<le> votes_cast ?fin v"
    by simp
  have rest: "length (filter (\<lambda>p. req_voter (fst p) = v \<and> is_qualifying (snd p)) (replies admits ?d1 rs)) =
     (if votes_cast ?d1 v < 25 \<and> 25 \<le> votes_cast ?fin v then 1 else 0)"
    by (rule Cons.IH [OF r1])
  show ?case
  proof (cases "req_voter r = v \<and> is_qualifying ?resp")
    case True
    with flag have "votes_cast d v = 24" "votes_cast ?d1 v = 25" by simp_all
    with True rest mono show ?thesis by simp
  next
    case False
    have "votes_cast ?d1 v < 25 \<longleftrightarrow> votes_cast d v < 25"
    proof (cases "req_voter r = v")
      case True
      with False flag have "\<not> (votes_cast d v = 24 \<and> votes_cast ?d1 v = 25)" by simp
      with lo hi show ?thesis by arith
    next
      case False
      with other show ?thesis by simp
    qed
    with False rest show ?thesis by auto
  qed
qed

lemma status_never_reverts:
  assumes "castVote admits first now d u sid val = (resp, d')"
  shows "length (submissions d') = length (submissions d)
    \<and> (\<forall>i<length (submissions d).
          status (submissions d ! i) \<noteq> ''PENDING'' \<longrightarrow> status (submissions d' ! i) \<noteq> ''PENDING'')"
proof (cases "admits d \<lparr>voter_id = u, submission_id = sid, vote_value = val\<rparr>")
  case True
  define n where "n = int (length (filter (\<lambda>x. voter_id x = u)
      (insert_vote \<lparr>voter_id = u, submission_id = sid, vote_value = val\<rparr> (user_votes d))))"
  define q where "q \<longleftrightarrow> n \<ge> 25 \<and> guard_status first d u = Some ''PENDING''"
  from assms have d': "submissions d' = map (cast_row now u sid val n q) (submissions d)"
    unfolding castVote_rows [where admits = admits and d = d, OF True] q_def n_def
    by auto
  have "status (submissions d' ! i) \<noteq> ''PENDING''"
    if "i < length (submissions d)" "status (submissions d ! i) \<noteq> ''PENDING''" for i
    using that unfolding d' by (simp add: cast_row_status)
  then show ?thesis
    by (simp add: d')
next
  case False
  with assms show ?thesis
    by (simp add: castVote_rejected)
qed

text \<open>
  Claim C3 says that a voter who owns a pending submission and casts 25 votes sees
  that submission qualified, with \<^verbatim>\<open>qualified: true\<close> on the 25th vote. The handler
  falls short of it where the voter owns several submissions: the guard reads the
  status of the row that the store returns first. User 5 owns an earlier submission
  that was made a winner and a pending one, has cast 24 votes, and the store
  returns the earlier submission first. The 25th vote is answered with
  \<^verbatim>\<open>qualified: false\<close>, and the pending submission stays pending.
\<close>

theorem pending_entry_left_behind:
  "own_rows two_entries_store 5 =
     [(new_submission 1 5 1)\<lparr>status := ''winner'', is_winner := True\<rparr>, new_submission 2 5 2]
   \<and> status (new_submission 2 5 2) = ''PENDING''
   \<and> votes_cast two_entries_store 5 = 24
   \<and> castVote accept_all 0 99 two_entries_store 5 34 (JNum 1) =
      (VoteOk 25 False,
       \<lparr>submissions = [(new_submission 1 5 1)\<lparr>status := ''winner'', is_winner := True, votes_completed := 25\<rparr>,
                       (new_submission 2 5 2)\<lparr>votes_completed := 25\<rparr>],
        user_votes = ballots 5 [10..<34] @ [\<lparr>voter_id = 5, submission_id = 34, vote_value = JNum 1\<rparr>]\<rparr>)"
  by (simp add: two_entries_store_def castVote_def accept_all_def new_submission_def insert_vote_def
        update_where_def own_rows_def votes_of_def votes_cast_def ballots_def Let_def)

text \<open>
  Where every submission of the voter is pending and fewer than 25 votes have been
  cast, the handler does what the claim says, whichever row the store returns
  first: in every sequence of requests that follows, a request of the voter is
  answered with \<^verbatim>\<open>qualified: true\<close> exactly when it records the 25th vote, that
  request qualifies and stamps every submission of the voter, and the sequence
  holds one such answer if the voter reaches 25 votes and none otherwise. By
  \<open>status_never_reverts\<close> no request ever makes a status \<^verbatim>\<open>'PENDING'\<close> again.
\<close>

lemma quota_reached_once:
  assumes own: "own_rows d0 v \<noteq> []"
    and pending: "\<forall>s\<in>set (own_rows d0 v). status s = ''PENDING''"
    and below: "votes_cast d0 v < 25"
    and before: "d = castVotes admits d0 pre"
    and res: "castVote admits first now d u sid val = (resp, d')"
  shows "(u = v \<longrightarrow> (is_qualifying resp \<longleftrightarrow> votes_cast d v = 24 \<and> votes_cast d' v = 25))
    \<and> (u = v \<and> is_qualifying resp \<longrightarrow>
         (\<forall>s\<in>set (own_rows d' v). status s = ''QUALIFIED'' \<and> qualified_at s = Some now))
    \<and> (\<not> (u = v \<and> is_qualifying resp) \<longrightarrow>
         map status (own_rows d' v) = map status (own_rows d v)
         \<and> map qualified_at (own_rows d' v) = map qualified_at (own_rows d v))
    \<and> (\<forall>s\<in>set (own_rows d' v).
         status s = (if votes_cast d' v < 25 then ''PENDING'' else ''QUALIFIED''))
    \<and> votes_cast d v \<le> votes_cast d' v
    \<and> length (filter (\<lambda>p. req_voter (fst p) = v \<and> is_qualifying (snd p)) (replies admits d0 reqs)) =
         (if votes_cast (castVotes admits d0 reqs) v < 25 then 0 else 1)"
proof -
  from own pending below have r0: "ratchet d0 v"
    by (simp add: ratchet_def)
  then have r: "ratchet d v"
    unfolding before using ratchet_castVotes by blast
  note step = ratchet_step [OF r res]
  from step have r': "ratchet d' v" by simp
  have 1: "u = v \<longrightarrow> (is_qualifying resp \<longleftrightarrow> votes_cast d v = 24 \<and> votes_cast d' v = 25)"
    using step by simp
  have 4: "\<forall>s\<in>set (own_rows d' v).
         status s = (if votes_cast d' v < 25 then ''PENDING'' else ''QUALIFIED'')"
    using r' by (simp add: ratchet_def)
  have 2: "u = v \<and> is_qualifying resp \<longrightarrow>
         (\<forall>s\<in>set (own_rows d' v). status s = ''QUALIFIED'' \<and> qualified_at s = Some now)"
  proof
    assume a: "u = v \<and> is_qualifying resp"
    with 1 have "votes_cast d' v = 25" by simp
    with 4 have "\<forall>s\<in>set (own_rows d' v). status s = ''QUALIFIED''" by simp
    moreover from step a have "\<forall>s\<in>set (own_rows d' v). qualified_at s = Some now" by simp
    ultimately show "\<forall>s\<in>set (own_rows d' v). status s = ''QUALIFIED'' \<and> qualified_at s = Some now"
      by simp
  qed
  have 3: "\<not> (u = v \<and> is_qualifying resp) \<longrightarrow>
         map status (own_rows d' v) = map status (own_rows d v)
         \<and> map qualified_at (own_rows d' v) = map qualified_at (own_rows d v)"
    using step by simp
  have 5: "votes_cast d v \<le> votes_cast d' v"
    using step by simp
  have 6: "length (filter (\<lambda>p. req_voter (fst p) = v \<and> is_qualifying (snd p)) (replies admits d0 reqs)) =
         (if votes_cast (castVotes admits d0 reqs) v < 25 then 0 else 1)"
    unfolding qualifying_count [OF r0] using below by simp
  from 1 2 3 4 5 6 show ?thesis by blast
qed

subsection \<open>Theorems: the voting batch\<close>

lemma least_shown_subset: "set (least_shown rnd rows) \<subseteq> set rows"
  unfolding least_shown_def using set_take_subset [of 25 "sort_key (\<lambda>s. (times_shown s, rnd s)) rows"]
  by simp

lemma least_shown_length: "length (least_shown rnd rows) \<le> 25"
  by (simp add: least_shown_def)

lemma least_shown_Nil_iff: "least_shown rnd rows = [] \<longleftrightarrow> rows = []"
proof -
  have "length (sort_key (\<lambda>s. (times_shown s, rnd s)) rows) = length rows" by simp
  then show ?thesis
    unfolding least_shown_def take_eq_Nil by (metis length_0_conv zero_neq_numeral)
qed

lemma least_shown_all:
  "length rows \<le> 25 \<Longrightarrow> mset (least_shown rnd rows) = mset rows"
  by (simp add: least_shown_def)

lemma least_shown_distinct:
  assumes "distinct (map sub_id rows)"
  shows "distinct (map sub_id (least_shown rnd rows))"
proof -
  from assms have d: "distinct rows" and i: "inj_on sub_id (set rows)"
    by (simp_all add: distinct_map)
  have "distinct (least_shown rnd rows)"
    using d by (simp add: least_shown_def)
  moreover have "inj_on sub_id (set (least_shown rnd rows))"
    using i least_shown_subset by (rule inj_on_subset)
  ultimately show ?thesis
    by (simp add: distinct_map)
qed

lemma mark_shown_map:
  "distinct (map sub_id es) \<Longrightarrow>
   mark_shown es rows =
     map (\<lambda>s. if sub_id s \<in> sub_id ` set es then s\<lparr>times_shown := times_shown s + 1\<rparr> else s) rows"
proof (induction es arbitrary: rows)
  case Nil
  then show ?case by simp
next
  case (Cons e es)
  then have fresh: "sub_id e \<notin> sub_id ` set es" and rest: "distinct (map sub_id es)"
    by simp_all
  show ?case
    unfolding mark_shown.simps Cons.IH [OF rest] update_where_def
    using fresh by (auto simp: comp_def)
qed

lemma mark_shown_rows:
  assumes ids: "distinct (map sub_id rows)" and sub: "set es \<subseteq> set rows"
    and es: "distinct (map sub_id es)"
  shows "mark_shown es rows =
     map (\<lambda>s. if s \<in> set es then s\<lparr>times_shown := times_shown s + 1\<rparr> else s) rows"
proof -
  from ids have inj: "inj_on sub_id (set rows)"
    by (simp add: distinct_map)
  have "sub_id s \<in> sub_id ` set es \<longleftrightarrow> s \<in> set es" if "s \<in> set rows" for s
    using inj sub that by (auto dest: inj_onD)
  then show ?thesis
    unfolding mark_shown_map [OF es] by (auto intro: map_cong)
qed

lemma getVotingBatch_cases:
  "getVotingBatch rnd rnd' d userId =
     (let es = (if filter (\<lambda>s. candidate d userId s \<and> status s = ''QUALIFIED'') (submissions d) = []
                then least_shown rnd' (filter (candidate d userId) (submissions d))
                else least_shown rnd
                       (filter (\<lambda>s. candidate d userId s \<and> status s = ''QUALIFIED'') (submissions d)))
      in (BatchOk es, d\<lparr>submissions := mark_shown es (submissions d)\<rparr>))"
  by (simp add: getVotingBatch_def Let_def least_shown_Nil_iff)

lemma batch_store_pool:
  "filter (candidate batch_store 9) (submissions batch_store) =
     [(new_submission 1 2 1)\<lparr>status := ''QUALIFIED''\<rparr>, new_submission 2 3 1]"
  by (simp add: batch_store_def new_submission_def candidate_def not_voted_def
          votes_of_def ballots_def)

lemma batch_store_qualified:
  "filter (\<lambda>s. candidate batch_store 9 s \<and> status s = ''QUALIFIED'') (submissions batch_store) =
     [(new_submission 1 2 1)\<lparr>status := ''QUALIFIED''\<rparr>]"
  by (simp add: batch_store_def new_submission_def candidate_def not_voted_def
          votes_of_def ballots_def)

lemma batch_store_entries:
  "fst (getVotingBatch table_order table_order batch_store 9) =
       BatchOk [(new_submission 1 2 1)\<lparr>status := ''QUALIFIED''\<rparr>]"
  unfolding getVotingBatch_cases batch_store_qualified
  by (simp add: least_shown_def)

lemma batch_store_shown:
  "submissions (snd (getVotingBatch table_order table_order batch_store 9)) =
     [(new_submission 1 2 1)\<lparr>status := ''QUALIFIED'', times_shown := 1\<rparr>, new_submission 2 3 1,
      (new_submission 3 4 1)\<lparr>status := ''QUALIFIED''\<rparr>, new_submission 4 9 1]"
  unfolding getVotingBatch_cases batch_store_qualified
  by (simp add: least_shown_def update_where_def batch_store_def new_submission_def)

lemma early_store_qualified:
  "filter (\<lambda>s. candidate early_store 3 s \<and> status s = ''QUALIFIED'') (submissions early_store) = []"
  by (simp add: early_store_def new_submission_def)

lemma early_store_pool:
  "filter (candidate early_store 3) (submissions early_store) =
     [new_submission 4 9 1, new_submission 5 6 1]"
  by (simp add: early_store_def new_submission_def candidate_def not_voted_def
          votes_of_def ballots_def)

lemma early_store_least_shown:
  "least_shown table_order [new_submission 4 9 1, new_submission 5 6 1] =
     [new_submission 4 9 1, new_submission 5 6 1]"
  by (simp add: least_shown_def table_order_def new_submission_def)


text \<open>
  Claim C7. In a store whose submissions have distinct ids, the batch endpoint
  answers with at most 25 entries, each a submission of the store that the caller
  does not own and has not voted on; \<open>times_shown\<close> grows by exactly one for the
  submissions returned and stays as it is for all others; the ledger is untouched;
  and when the caller has no candidate at all the answer is the empty batch, not an
  error, and the store is unchanged.
\<close>

theorem batch_is_fair:
  assumes ids: "distinct (map sub_id (submissions d))"
    and res: "getVotingBatch rnd rnd' d userId = (resp, d')"
  shows "\<exists>es. resp = BatchOk es
      \<and> length es \<le> 25
      \<and> (\<forall>e\<in>set es. e \<in> set (submissions d) \<and> user_id e \<noteq> userId \<and> not_voted d userId e)
      \<and> submissions d' =
          map (\<lambda>s. if s \<in> set es then s\<lparr>times_shown := times_shown s + 1\<rparr> else s) (submissions d)
      \<and> user_votes d' = user_votes d
      \<and> (filter (candidate d userId) (submissions d) = [] \<longrightarrow> es = [] \<and> d' = d)"
proof -
  let ?q = "filter (\<lambda>s. candidate d userId s \<and> status s = ''QUALIFIED'') (submissions d)"
  let ?pool = "filter (candidate d userId) (submissions d)"
  define es where "es = (if ?q = [] then least_shown rnd' ?pool else least_shown rnd ?q)"
  from res have resp: "resp = BatchOk es"
    and d': "d' = d\<lparr>submissions := mark_shown es (submissions d)\<rparr>"
    unfolding getVotingBatch_cases es_def by (simp_all add: Let_def)
  have sub: "set es \<subseteq> set ?pool"
  proof (cases "?q = []")
    case True
    then show ?thesis unfolding es_def using least_shown_subset [of rnd' ?pool] by simp
  next
    case False
    then show ?thesis unfolding es_def using least_shown_subset [of rnd ?q] by auto
  qed
  then have sub': "set es \<subseteq> set (submissions d)" by auto
  have len: "length es \<le> 25"
    unfolding es_def by (simp add: least_shown_length)
  have dist: "distinct (map sub_id es)"
    unfolding es_def using ids by (simp add: least_shown_distinct distinct_map_filter)
  have mark: "mark_shown es (submissions d) =
      map (\<lambda>s. if s \<in> set es then s\<lparr>times_shown := times_shown s + 1\<rparr> else s) (submissions d)"
    using ids sub' dist by (rule mark_shown_rows)
  have excl: "\<forall>e\<in>set es. e \<in> set (submissions d) \<and> user_id e \<noteq> userId \<and> not_voted d userId e"
    using sub by (auto simp: candidate_def)
  have empty: "es = [] \<and> d' = d" if "?pool = []"
  proof -
    from that sub have "es = []" by simp
    then show ?thesis unfolding d' by simp
  qed
  from resp len excl mark empty show ?thesis
    unfolding d' by simp
qed

theorem batch_is_fair_witness:
  "distinct (map sub_id (submissions batch_store))
   \<and> fst (getVotingBatch table_order table_order batch_store 9) =
       BatchOk [(new_submission 1 2 1)\<lparr>status := ''QUALIFIED''\<rparr>]
   \<and> map times_shown (submissions (snd (getVotingBatch table_order table_order batch_store 9))) = [1, 0, 0, 0]
   \<and> map sub_id (submissions (snd (getVotingBatch table_order table_order batch_store 9))) = [1, 2, 3, 4]"
proof -
  have h: "distinct (map sub_id (submissions batch_store))"
    by (simp add: batch_store_def new_submission_def)
  have r: "getVotingBatch table_order table_order batch_store 9 =
      (fst (getVotingBatch table_order table_order batch_store 9),
       snd (getVotingBatch table_order table_order batch_store 9))"
    by simp
  have t: "map times_shown (submissions (snd (getVotingBatch table_order table_order batch_store 9))) = [1, 0, 0, 0]"
    "map sub_id (submissions (snd (getVotingBatch table_order table_order batch_store 9))) = [1, 2, 3, 4]"
    unfolding batch_store_shown by (simp_all add: new_submission_def)
  from batch_is_fair [OF h r] h batch_store_entries t show ?thesis
    by blast
qed

text \<open>
  Claim C6, as stated, fails. User 9 has one qualified candidate left, fewer than
  25, and a pending candidate besides; the batch holds the qualified one alone: the
  handler falls back only when the first query returns no row.
\<close>

theorem fallback_counterexample:
  "length (filter (\<lambda>s. candidate batch_store 9 s \<and> status s = ''QUALIFIED'') (submissions batch_store)) < 25
   \<and> filter (candidate batch_store 9) (submissions batch_store) =
     [(new_submission 1 2 1)\<lparr>status := ''QUALIFIED''\<rparr>, new_submission 2 3 1]
   \<and> status (new_submission 2 3 1) = ''PENDING''
   \<and> fst (getVotingBatch table_order table_order batch_store 9) =
       BatchOk [(new_submission 1 2 1)\<lparr>status := ''QUALIFIED''\<rparr>]"
  unfolding batch_store_qualified batch_store_pool batch_store_entries
  by (simp add: new_submission_def)

text \<open>
  Claim C6, amended. The batch endpoint falls back to the full pool of candidates
  (pending ones included) exactly when no qualified candidate is left for the
  caller; the pool is returned whole when it has at most 25 rows. As long as a
  qualified candidate is left, only qualified candidates are returned. Either way
  no entry is owned by the caller or already voted on by the caller.
\<close>

theorem fallback_when_none_qualified:
  assumes res: "getVotingBatch rnd rnd' d userId = (resp, d')"
  shows "(filter (\<lambda>s. candidate d userId s \<and> status s = ''QUALIFIED'') (submissions d) = [] \<longrightarrow>
            resp = BatchOk (least_shown rnd' (filter (candidate d userId) (submissions d)))
            \<and> (length (filter (candidate d userId) (submissions d)) \<le> 25 \<longrightarrow>
                 mset (entries resp) = mset (filter (candidate d userId) (submissions d))))
       \<and> (filter (\<lambda>s. candidate d userId s \<and> status s = ''QUALIFIED'') (submissions d) \<noteq> [] \<longrightarrow>
            resp = BatchOk (least_shown rnd
              (filter (\<lambda>s. candidate d userId s \<and> status s = ''QUALIFIED'') (submissions d)))
            \<and> (\<forall>e\<in>set (entries resp). status e = ''QUALIFIED''))
       \<and> (\<forall>e\<in>set (entries resp). user_id e \<noteq> userId \<and> not_voted d userId e)"
proof -
  let ?q = "filter (\<lambda>s. candidate d userId s \<and> status s = ''QUALIFIED'') (submissions d)"
  let ?pool = "filter (candidate d userId) (submissions d)"
  from res have resp: "resp = BatchOk (if ?q = [] then least_shown rnd' ?pool else least_shown rnd ?q)"
    unfolding getVotingBatch_cases by (simp add: Let_def)
  have 1: "resp = BatchOk (least_shown rnd' ?pool)
        \<and> (length ?pool \<le> 25 \<longrightarrow> mset (entries resp) = mset ?pool)" if "?q = []"
    unfolding resp using that by (simp add: least_shown_all)
  have 2: "resp = BatchOk (least_shown rnd ?q) \<and> (\<forall>e\<in>set (entries resp). status e = ''QUALIFIED'')"
    if "?q \<noteq> []"
    unfolding resp using that least_shown_subset [of rnd ?q] by auto
  have 3: "\<forall>e\<in>set (entries resp). user_id e \<noteq> userId \<and> not_voted d userId e"
  proof (cases "?q = []")
    case True
    then show ?thesis
      unfolding resp using least_shown_subset [of rnd' ?pool] by (auto simp: candidate_def)
  next
    case False
    then show ?thesis
      unfolding resp using least_shown_subset [of rnd ?q] by (auto simp: candidate_def)
  qed
  from 1 2 3 show ?thesis by blast
qed

theorem fallback_when_none_qualified_witness:
  "filter (\<lambda>s. candidate early_store 3 s \<and> status s = ''QUALIFIED'') (submissions early_store) = []
   \<and> fst (getVotingBatch table_order table_order early_store 3) =
      BatchOk [new_submission 4 9 1, new_submission 5 6 1]
   \<and> filter (\<lambda>s. candidate batch_store 9 s \<and> status s = ''QUALIFIED'') (submissions batch_store) \<noteq> []
   \<and> list_all (\<lambda>e. status e = ''QUALIFIED'')
        (entries (fst (getVotingBatch table_order table_order batch_store 9)))"
proof -
  have r: "getVotingBatch table_order table_order early_store 3 =
      (fst (getVotingBatch table_order table_order early_store 3),
       snd (getVotingBatch table_order table_order early_store 3))"
    by simp
  have n: "filter (\<lambda>s. candidate batch_store 9 s \<and> status s = ''QUALIFIED'') (submissions batch_store) \<noteq> []"
    unfolding batch_store_qualified by simp
  have r': "getVotingBatch table_order table_order batch_store 9 =
      (fst (getVotingBatch table_order table_order batch_store 9),
       snd (getVotingBatch table_order table_order batch_store 9))"
    by simp
  from fallback_when_none_qualified [OF r] early_store_qualified
  have "fst (getVotingBatch table_order table_order early_store 3) =
      BatchOk (least_shown table_order (filter (candidate early_store 3) (submissions early_store)))"
    by blast
  then have a: "fst (getVotingBatch table_order table_order early_store 3) =
      BatchOk [new_submission 4 9 1, new_submission 5 6 1]"
    unfolding early_store_pool early_store_least_shown .
  from fallback_when_none_qualified [OF r'] n
  have b: "list_all (\<lambda>e. status e = ''QUALIFIED'')
        (entries (fst (getVotingBatch table_order table_order batch_store 9)))"
    unfolding list_all_iff by blast
  from early_store_qualified a n b show ?thesis
    by blast
qed

subsection \<open>Theorems: the winners\<close>




text \<open>
  Rounding to double precision: \<open>float8 x\<close> lies on the grid of multiples of
  \<open>2^(e - 52)\<close>, where \<open>2^e \<le> x < 2^(e + 1)\<close>; a natural number below \<open>2^53\<close> is
  a double; and the product of such a number with the double nearest to \<open>0.20\<close>,
  rounded, has the ceiling of the exact fifth, so that below \<open>2^53\<close> voters the
  threshold of the code is the one of exact arithmetic.
\<close>

lemma pow2_powi: "pow2 e = 2 powi e"
  by (simp add: pow2_def power_int_def power_one_over inverse_eq_divide)

lemma pow2_pos [simp]: "0 < pow2 e"
  by (simp add: pow2_powi)




































end
